theory Spec2Isabelle
  imports Complex_Main "HOL-Library.Sublist" "HOL-Library.Multiset"
begin

section \<open>Errors\<close>

text \<open>
  Every exception the modelled functions can raise is a value. \<open>AggregationMethodError\<close>
  is the \<open>ValueError\<close> that \<open>align_csi_magnitude\<close> raises itself; the others are raised
  by the libraries it calls: \<open>NegativeSamples\<close> by \<open>np.linspace\<close> on a negative count,
  \<open>LengthMismatch\<close> by assigning a column of the wrong length, \<open>EmptyReduction\<close> by
  \<open>min\<close> of an empty array, \<open>ArangeError\<close> by \<open>np.arange\<close> with step zero,
  \<open>RangeStepZero\<close> by \<open>range\<close> with step zero, \<open>KeyError\<close> by a label that is not in
  the index or not a column, \<open>MergeError\<close> by \<open>pd.merge\<close> on an unknown join mode, and
  \<open>FitError\<close> by the principal-component fit.
\<close>

datatype error =
    AggregationMethodError
  | NegativeSamples
  | LengthMismatch
  | EmptyReduction
  | ArangeError
  | RangeStepZero
  | KeyError
  | MergeError
  | FitError

section \<open>Data model\<close>

text \<open>
  A pandas DataFrame with a \<open>timestamp\<close> column and further named value columns is a
  record of columns. A cell of a value column is \<open>None\<close> where pandas holds the
  missing-value marker NaN. The row index is the default one (\<open>0 .. n-1\<close>), which is what
  \<open>reset_index\<close> leaves behind. All columns of a DataFrame have the length of its
  timestamp column; \<open>wf_frame\<close> says so.
\<close>

record ('t, 'v) frame =
  timestamp :: "'t list"
  cols :: "(string \<times> 'v option list) list"

definition wf_frame :: "('t, 'v) frame \<Rightarrow> bool" where
  "wf_frame df = list_all (\<lambda>(n, c). length c = length (timestamp df)) (cols df)"

section \<open>Sorting a frame by timestamp\<close>

text \<open>
  \<open>df.sort_values("timestamp").reset_index(drop=True)\<close>: the permutation that sorts the
  timestamp column is computed once and every column is taken along it. Rows with equal
  timestamps keep their order: the sort is stable, as the specification says of it.
\<close>

definition argsort :: "'t::linorder list \<Rightarrow> nat list" where
  "argsort ks = map snd (sort_key fst (zip ks [0..<length ks]))"

definition take_rows :: "nat list \<Rightarrow> 'a list \<Rightarrow> 'a list" where
  "take_rows p xs = map (\<lambda>i. xs ! i) p"

definition sort_values :: "('t::linorder, 'v) frame \<Rightarrow> ('t, 'v) frame" where
  "sort_values df =
     (let p = argsort (timestamp df)
      in \<lparr>timestamp = take_rows p (timestamp df),
          cols = map (\<lambda>(n, c). (n, take_rows p c)) (cols df)\<rparr>)"

section \<open>Gap filler\<close>

text \<open>\<open>Series.ffill()\<close>: a missing cell takes the last known value above it, if any.\<close>

fun ffill_from :: "'v option \<Rightarrow> 'v option list \<Rightarrow> 'v option list" where
  "ffill_from l [] = []"
| "ffill_from l (None # xs) = l # ffill_from l xs"
| "ffill_from l (Some v # xs) = Some v # ffill_from (Some v) xs"

definition ffill :: "'v option list \<Rightarrow> 'v option list" where
  "ffill xs = ffill_from None xs"

text \<open>\<open>Series.bfill()\<close>: a missing cell takes the next known value below it, if any.\<close>

fun bfill :: "'v option list \<Rightarrow> 'v option list" where
  "bfill [] = []"
| "bfill (Some v # xs) = Some v # bfill xs"
| "bfill (None # xs) = (case bfill xs of [] \<Rightarrow> None | y # _ \<Rightarrow> y) # bfill xs"

text \<open>\<open>Series.fillna(0)\<close>.\<close>

definition fillna :: "'v \<Rightarrow> 'v option list \<Rightarrow> 'v option list" where
  "fillna z xs = map (\<lambda>c. case c of None \<Rightarrow> Some z | Some v \<Rightarrow> Some v) xs"

text \<open>
  \<open>fill_missing_csi\<close>: sort by timestamp, then forward-fill and backward-fill the columns
  whose name starts with \<open>subcarrier_\<close>.
\<close>

definition fill_missing_csi :: "('t::linorder, 'v) frame \<Rightarrow> ('t, 'v) frame" where
  "fill_missing_csi csi_aligned =
     (let csi_sorted = sort_values csi_aligned
      in csi_sorted\<lparr>cols :=
           map (\<lambda>(n, c). if prefix ''subcarrier_'' n then (n, bfill (ffill c)) else (n, c))
             (cols csi_sorted)\<rparr>)"

text \<open>
  \<open>fill_missing_bitrate\<close>: sort by timestamp, then replace the missing cells of every
  column whose name contains \<open>bitrate\<close> by zero.
\<close>

definition fill_missing_bitrate :: "('t::linorder, 'v::zero) frame \<Rightarrow> ('t, 'v) frame" where
  "fill_missing_bitrate bitrate_aligned =
     (let bitrate_sorted = sort_values bitrate_aligned
      in bitrate_sorted\<lparr>cols :=
           map (\<lambda>(n, c). if sublist ''bitrate'' n then (n, fillna 0 c) else (n, c))
             (cols bitrate_sorted)\<rparr>)"

text \<open>
  The gap-filling policy in the words of the specification: the nearest earlier known
  value of a column at row \<open>i\<close> (the row itself included), and the nearest later known
  value (the row itself included).
\<close>

definition last_known :: "'v option list \<Rightarrow> nat \<Rightarrow> 'v option" where
  "last_known c i = (case find (\<lambda>x. x \<noteq> None) (rev (take (Suc i) c)) of None \<Rightarrow> None | Some x \<Rightarrow> x)"

definition next_known :: "'v option list \<Rightarrow> nat \<Rightarrow> 'v option" where
  "next_known c i = (case find (\<lambda>x. x \<noteq> None) (drop i c) of None \<Rightarrow> None | Some x \<Rightarrow> x)"

text \<open>The rows of a frame, read across its columns, and the tables without a missing cell.\<close>

definition rows_of :: "('t, 'v) frame \<Rightarrow> ('t \<times> 'v option list) list" where
  "rows_of df =
     map (\<lambda>i. (timestamp df ! i, map (\<lambda>(n, c). c ! i) (cols df))) [0..<length (timestamp df)]"

definition no_missing :: "('t, 'v) frame \<Rightarrow> bool" where
  "no_missing df = list_all (\<lambda>(n, c). None \<notin> set c) (cols df)"

section \<open>Windowed feature extractor\<close>

text \<open>Python's \<open>range(start, stop, step)\<close>, which raises on step zero.\<close>

function range_up :: "int \<Rightarrow> int \<Rightarrow> int \<Rightarrow> int list" where
  "range_up i stop step = (if 0 < step \<and> i < stop then i # range_up (i + step) stop step else [])"
  by pat_completeness auto
termination
  by (relation "measure (\<lambda>(i, stop, step). nat (stop - i))") auto

function range_down :: "int \<Rightarrow> int \<Rightarrow> int \<Rightarrow> int list" where
  "range_down i stop step = (if step < 0 \<and> stop < i then i # range_down (i + step) stop step else [])"
  by pat_completeness auto
termination
  by (relation "measure (\<lambda>(i, stop, step). nat (i - stop))") auto

definition py_range :: "int \<Rightarrow> int \<Rightarrow> int \<Rightarrow> error + int list" where
  "py_range start stop step =
     (if step = 0 then Inl RangeStepZero
      else if 0 < step then Inr (range_up start stop step)
      else Inr (range_down start stop step))"

text \<open>Python's slice \<open>xs[a:b]\<close>: negative bounds count from the end, and both are clipped.\<close>

definition slice_bound :: "nat \<Rightarrow> int \<Rightarrow> nat" where
  "slice_bound n k = (if k < 0 then nat (max 0 (k + int n)) else min (nat k) n)"

definition py_slice :: "'a list \<Rightarrow> int \<Rightarrow> int \<Rightarrow> 'a list" where
  "py_slice xs a b =
     (let lo = slice_bound (length xs) a; hi = slice_bound (length xs) b
      in take (hi - lo) (drop lo xs))"

text \<open>\<open>df.loc[i, "timestamp"]\<close> on the default index: the label must be a row number.\<close>

definition loc :: "'a list \<Rightarrow> int \<Rightarrow> error + 'a" where
  "loc xs i = (if 0 \<le> i \<and> i < int (length xs) then Inr (xs ! nat i) else Inl KeyError)"

text \<open>
  \<open>csi_feature_extraction\<close>. The matrix of the subcarrier columns is read row by row.
  The fit of the principal-component analysis belongs to an external library: it is the
  parameter \<open>pca\<close>, which gets the window and returns the explained variance of the first
  component or raises; \<open>round2\<close> is the rounding to two decimals.
\<close>

definition csi_matrix :: "('t, 'v) frame \<Rightarrow> 'v option list list" where
  "csi_matrix df =
     map (\<lambda>i. map (\<lambda>(n, c). c ! i) (filter (\<lambda>(n, c). prefix ''subcarrier_'' n) (cols df)))
       [0..<length (timestamp df)]"

fun csi_windows ::
  "('v option list list \<Rightarrow> error + 'f option) \<Rightarrow> 'v option list list \<Rightarrow> 't list \<Rightarrow> int \<Rightarrow>
   int list \<Rightarrow> error + ('t \<times> 'f option) list" where
  "csi_windows pca m ts window_size [] = Inr []"
| "csi_windows pca m ts window_size (start # rest) =
     (case pca (py_slice m start (start + window_size)) of
        Inl e \<Rightarrow> Inl e
      | Inr f \<Rightarrow>
          (case loc ts (start + window_size div 2) of
             Inl e \<Rightarrow> Inl e
           | Inr t \<Rightarrow>
               (case csi_windows pca m ts window_size rest of
                  Inl e \<Rightarrow> Inl e
                | Inr out \<Rightarrow> Inr ((t, f) # out))))"

definition csi_feature_extraction ::
  "('v option list list \<Rightarrow> error + 'f option) \<Rightarrow> ('f \<Rightarrow> 'f) \<Rightarrow> ('t, 'v) frame \<Rightarrow> int \<Rightarrow> int \<Rightarrow>
   error + ('t, 'f) frame" where
  "csi_feature_extraction pca round2 csi_aligned window_size stride =
     (let m = csi_matrix csi_aligned;
          n_packets = int (length m)
      in case py_range 0 (n_packets - window_size + 1) stride of
           Inl e \<Rightarrow> Inl e
         | Inr starts \<Rightarrow>
             (case csi_windows pca m (timestamp csi_aligned) window_size starts of
                Inl e \<Rightarrow> Inl e
              | Inr out \<Rightarrow>
                  Inr \<lparr>timestamp = map fst out,
                       cols = [(''csi_feature'', map (\<lambda>(t, f). map_option round2 f) out)]\<rparr>))"

text \<open>\<open>Series.median()\<close>: the median of the known values, missing when there is none.\<close>

definition median :: "rat option list \<Rightarrow> rat option" where
  "median xs =
     (let ys = sort (concat (map (\<lambda>x. case x of None \<Rightarrow> [] | Some v \<Rightarrow> [v]) xs));
          n = length ys
      in if n = 0 then None
         else if odd n then Some (ys ! (n div 2))
         else Some ((ys ! (n div 2 - 1) + ys ! (n div 2)) / 2))"

text \<open>\<open>median_filter_bitrate\<close>: the rows are sorted by timestamp first.\<close>

fun median_windows ::
  "(string \<times> rat option list) list \<Rightarrow> 't list \<Rightarrow> int \<Rightarrow> int list \<Rightarrow> error + ('t \<times> rat option) list" where
  "median_windows cs ts window_size [] = Inr []"
| "median_windows cs ts window_size (start # rest) =
     (case map_of cs ''bitrate_bytes'' of
        None \<Rightarrow> Inl KeyError
      | Some c \<Rightarrow>
          (case loc ts (start + window_size div 2) of
             Inl e \<Rightarrow> Inl e
           | Inr t \<Rightarrow>
               (case median_windows cs ts window_size rest of
                  Inl e \<Rightarrow> Inl e
                | Inr out \<Rightarrow> Inr ((t, median (py_slice c start (start + window_size))) # out))))"

definition median_filter_bitrate ::
  "('t::linorder, rat) frame \<Rightarrow> int \<Rightarrow> int \<Rightarrow> error + ('t, rat) frame" where
  "median_filter_bitrate bitrate_aligned window_size stride =
     (let bitrate_sorted = sort_values bitrate_aligned;
          n = int (length (timestamp bitrate_sorted))
      in case py_range 0 (n - window_size + 1) stride of
           Inl e \<Rightarrow> Inl e
         | Inr starts \<Rightarrow>
             (case median_windows (cols bitrate_sorted) (timestamp bitrate_sorted) window_size starts of
                Inl e \<Rightarrow> Inl e
              | Inr out \<Rightarrow>
                  Inr \<lparr>timestamp = map fst out, cols = [(''bitrate_median'', map snd out)]\<rparr>))"


section \<open>Feature joiner\<close>

text \<open>
  \<open>pd.merge(a, b, on="timestamp", how=how)\<close>, as the list of matched row numbers: a pair
  \<open>(Some i, Some j)\<close> for row \<open>i\<close> of the left frame and row \<open>j\<close> of the right frame with
  equal timestamps, in the order of the left rows; \<open>left\<close>, \<open>right\<close> and \<open>outer\<close> keep the
  unmatched rows of one side or of both, with the other side missing. An unknown join
  mode raises. The value columns of the two frames have different names
  (\<open>csi_feature\<close> and \<open>bitrate_median\<close>), so no column is renamed.
\<close>

definition matches :: "'t \<Rightarrow> 't list \<Rightarrow> nat list" where
  "matches t ks = filter (\<lambda>j. ks ! j = t) [0..<length ks]"

definition merge_pairs :: "string \<Rightarrow> 't list \<Rightarrow> 't list \<Rightarrow> error + (nat option \<times> nat option) list" where
  "merge_pairs how a b =
     (if how = ''inner'' then
        Inr (concat (map (\<lambda>i. map (\<lambda>j. (Some i, Some j)) (matches (a ! i) b)) [0..<length a]))
      else if how = ''left'' then
        Inr (concat (map (\<lambda>i. case matches (a ! i) b of
                                 [] \<Rightarrow> [(Some i, None)]
                               | js \<Rightarrow> map (\<lambda>j. (Some i, Some j)) js) [0..<length a]))
      else if how = ''right'' then
        Inr (concat (map (\<lambda>j. case matches (b ! j) a of
                                 [] \<Rightarrow> [(None, Some j)]
                               | is \<Rightarrow> map (\<lambda>i. (Some i, Some j)) is) [0..<length b]))
      else if how = ''outer'' then
        Inr (concat (map (\<lambda>i. case matches (a ! i) b of
                                 [] \<Rightarrow> [(Some i, None)]
                               | js \<Rightarrow> map (\<lambda>j. (Some i, Some j)) js) [0..<length a])
             @ map (\<lambda>j. (None, Some j)) (filter (\<lambda>j. matches (b ! j) a = []) [0..<length b]))
      else Inl MergeError)"

definition take_opt :: "nat option list \<Rightarrow> 'v option list \<Rightarrow> 'v option list" where
  "take_opt p c = map (\<lambda>r. case r of None \<Rightarrow> None | Some i \<Rightarrow> c ! i) p"

definition pair_key :: "'t list \<Rightarrow> 't list \<Rightarrow> nat option \<times> nat option \<Rightarrow> 't" where
  "pair_key a b p = (case p of (Some i, _) \<Rightarrow> a ! i | (None, Some j) \<Rightarrow> b ! j)"

definition merge :: "('t, 'v) frame \<Rightarrow> ('t, 'v) frame \<Rightarrow> string \<Rightarrow> error + ('t, 'v) frame" where
  "merge left right how =
     (case merge_pairs how (timestamp left) (timestamp right) of
        Inl e \<Rightarrow> Inl e
      | Inr ps \<Rightarrow>
          Inr \<lparr>timestamp = map (pair_key (timestamp left) (timestamp right)) ps,
               cols = map (\<lambda>(n, c). (n, take_opt (map fst ps) c)) (cols left)
                    @ map (\<lambda>(n, c). (n, take_opt (map snd ps) c)) (cols right)\<rparr>)"

text \<open>\<open>join_features\<close>: merge on the timestamp, then sort by it.\<close>

definition join_features ::
  "('t::linorder, 'v) frame \<Rightarrow> ('t, 'v) frame \<Rightarrow> string \<Rightarrow> error + ('t, 'v) frame" where
  "join_features csi_feature_df bitrate_filtered_df how =
     (case merge csi_feature_df bitrate_filtered_df how of
        Inl e \<Rightarrow> Inl e
      | Inr merged_df \<Rightarrow> Inr (sort_values merged_df))"

section \<open>Timeline aligner\<close>

text \<open>
  Timestamps and the interval are rational numbers and the arithmetic on them is exact:
  the rounding errors of binary floating point are not part of this model.
\<close>

text \<open>\<open>np.round\<close>: to the nearest integer, a tie to the even one.\<close>

definition round_half_even :: "rat \<Rightarrow> int" where
  "round_half_even q =
     (let f = \<lfloor>q\<rfloor>; d = q - of_int f
      in if d < 1 / 2 then f else if 1 / 2 < d then f + 1 else if even f then f else f + 1)"

text \<open>\<open>np.round(t / time_interval) * time_interval\<close>.\<close>

definition round_to :: "rat \<Rightarrow> rat \<Rightarrow> rat" where
  "round_to time_interval t = of_int (round_half_even (t / time_interval)) * time_interval"

text \<open>
  \<open>np.arange(start, stop, step)\<close>: \<open>ceil((stop - start) / step)\<close> values from \<open>start\<close> in
  steps of \<open>step\<close>; no length can be computed for step zero.
\<close>

definition arange :: "rat \<Rightarrow> rat \<Rightarrow> rat \<Rightarrow> error + rat list" where
  "arange start stop step =
     (if step = 0 then Inl ArangeError
      else Inr (map (\<lambda>i. start + of_nat i * step) [0..<nat \<lceil>(stop - start) / step\<rceil>]))"

text \<open>\<open>rounded_times.min()\<close> and \<open>.max()\<close> raise on an empty array.\<close>

definition array_min :: "rat list \<Rightarrow> error + rat" where
  "array_min xs = (case xs of [] \<Rightarrow> Inl EmptyReduction | x # ys \<Rightarrow> Inr (fold min ys x))"

definition array_max :: "rat list \<Rightarrow> error + rat" where
  "array_max xs = (case xs of [] \<Rightarrow> Inl EmptyReduction | x # ys \<Rightarrow> Inr (fold max ys x))"

definition full_timeline :: "rat list \<Rightarrow> rat \<Rightarrow> error + rat list" where
  "full_timeline rounded_times time_interval =
     (case array_min rounded_times of
        Inl e \<Rightarrow> Inl e
      | Inr lo \<Rightarrow>
          (case array_max rounded_times of
             Inl e \<Rightarrow> Inl e
           | Inr hi \<Rightarrow> arange lo (hi + time_interval) time_interval))"

text \<open>
  \<open>np.linspace(0, total - 1, num, dtype=int)\<close>: \<open>num\<close> evenly spaced values, the last one
  set to \<open>total - 1\<close>, truncated to integers; a single value is the start; a negative
  \<open>num\<close> raises.
\<close>

definition linspace_int :: "nat \<Rightarrow> int \<Rightarrow> error + nat list" where
  "linspace_int total_subcarriers num =
     (if num < 0 then Inl NegativeSamples
      else if num = 0 then Inr []
      else if num = 1 then Inr [0]
      else Inr (map (\<lambda>i. (i * (total_subcarriers - 1)) div (nat num - 1)) [0..<nat num]))"

text \<open>The array \<open>csi_data\<close> with its shape: \<open>shape1\<close> columns in every row.\<close>

record 'v ndarray =
  shape1 :: nat
  rows :: "'v option list list"

definition wf_ndarray :: "'v ndarray \<Rightarrow> bool" where
  "wf_ndarray a = list_all (\<lambda>r. length r = shape1 a) (rows a)"

text \<open>The decimal digits of a column number, for \<open>f"subcarrier_{i}"\<close>.\<close>

fun digits :: "nat \<Rightarrow> nat \<Rightarrow> string" where
  "digits 0 n = []"
| "digits (Suc fuel) n =
     (if n < 10 then [char_of (48 + n)] else digits fuel (n div 10) @ [char_of (48 + n mod 10)])"

definition str_of_nat :: "nat \<Rightarrow> string" where
  "str_of_nat n = digits (Suc n) n"

text \<open>
  \<open>groupby("timestamp")\<close>: the keys in ascending order, each with its rows in their
  original order; \<open>mean()\<close> averages the known values of each column, \<open>first()\<close> takes the
  first known value of each column, \<open>sum()\<close> adds up.
\<close>

definition group_keys :: "rat list \<Rightarrow> rat list" where
  "group_keys ks = sort (remdups ks)"

definition group_rows :: "rat list \<Rightarrow> 'a list \<Rightarrow> rat \<Rightarrow> 'a list" where
  "group_rows ks xs k = map snd (filter (\<lambda>(t, x). t = k) (zip ks xs))"

definition known :: "'v option list \<Rightarrow> 'v list" where
  "known c = concat (map (\<lambda>x. case x of None \<Rightarrow> [] | Some v \<Rightarrow> [v]) c)"

definition mean :: "rat option list \<Rightarrow> rat option" where
  "mean c = (let vs = known c in if vs = [] then None else Some (sum_list vs / of_nat (length vs)))"

definition first :: "'v option list \<Rightarrow> 'v option" where
  "first c = (case known c of [] \<Rightarrow> None | v # _ \<Rightarrow> Some v)"

definition aggregate ::
  "('v option list \<Rightarrow> 'v option) \<Rightarrow> nat \<Rightarrow> rat list \<Rightarrow> 'v option list list \<Rightarrow> (rat \<times> 'v option list) list" where
  "aggregate agg n ks data =
     map (\<lambda>k. (k, map (\<lambda>j. agg (map (\<lambda>r. r ! j) (group_rows ks data k))) [0..<n])) (group_keys ks)"

text \<open>\<open>grouped.reindex(full_timeline)\<close>: a label without a group gets a row of missing values.\<close>

definition reindex :: "nat \<Rightarrow> (rat \<times> 'v option list) list \<Rightarrow> rat list \<Rightarrow> 'v option list list" where
  "reindex n grouped timeline =
     map (\<lambda>t. case map_of grouped t of None \<Rightarrow> replicate n None | Some r \<Rightarrow> r) timeline"

text \<open>
  \<open>align_csi_magnitude\<close>. The column assignment \<open>df_csi["timestamp"] = rounded_times\<close>
  raises when the lengths differ, except on a table without rows, which takes the length
  of the assigned column and holds missing values in its other columns.
\<close>

definition select_subcarriers :: "'v ndarray \<Rightarrow> int option \<Rightarrow> error + ('v option list list \<times> nat)" where
  "select_subcarriers csi_data n_subcarriers =
     (let total_subcarriers = shape1 csi_data
      in case n_subcarriers of
           None \<Rightarrow> Inr (rows csi_data, total_subcarriers)
         | Some k \<Rightarrow>
             if k < int total_subcarriers then
               (case linspace_int total_subcarriers k of
                  Inl e \<Rightarrow> Inl e
                | Inr indices \<Rightarrow> Inr (map (\<lambda>r. map (\<lambda>j. r ! j) indices) (rows csi_data), nat k))
             else Inr (rows csi_data, total_subcarriers))"

definition align_csi_magnitude ::
  "rat ndarray \<Rightarrow> rat list \<Rightarrow> rat \<Rightarrow> int option \<Rightarrow> string \<Rightarrow> error + (rat, rat) frame" where
  "align_csi_magnitude csi_data csi_timestamps time_interval n_subcarriers aggregation_method =
     (case select_subcarriers csi_data n_subcarriers of
        Inl e \<Rightarrow> Inl e
      | Inr (data, n) \<Rightarrow>
          let rounded_times = map (round_to time_interval) csi_timestamps;
              df_csi = (if data = [] then replicate (length rounded_times) (replicate n None) else data)
          in if length rounded_times \<noteq> length df_csi then Inl LengthMismatch
             else
               (case (if aggregation_method = ''mean'' then Inr (aggregate mean n rounded_times df_csi)
                      else if aggregation_method = ''first'' then Inr (aggregate first n rounded_times df_csi)
                      else Inl AggregationMethodError) of
                  Inl e \<Rightarrow> Inl e
                | Inr grouped \<Rightarrow>
                    (case full_timeline rounded_times time_interval of
                       Inl e \<Rightarrow> Inl e
                     | Inr timeline \<Rightarrow>
                         let aligned = reindex n grouped timeline
                         in Inr \<lparr>timestamp = timeline,
                                 cols = map (\<lambda>j. (''subcarrier_'' @ str_of_nat j, map (\<lambda>r. r ! j) aligned))
                                          [0..<n]\<rparr>)))"

text \<open>
  \<open>calculate_bitrate_and_align\<close>. The table \<open>bitrate_df\<close> of the caller is changed by the
  two column assignments, so the function returns it next to its result.
\<close>

record bitrate_table =
  frame_time :: "rat list"
  ws_col_Length :: "int list"
  timestamp_col :: "rat list option"

definition calculate_bitrate_and_align ::
  "bitrate_table \<Rightarrow> rat \<Rightarrow> int \<Rightarrow> bitrate_table \<times> (error + (rat, rat) frame)" where
  "calculate_bitrate_and_align bitrate_df time_interval header_adjust =
     (let lengths = map (\<lambda>l. l - header_adjust) (ws_col_Length bitrate_df);
          rounded_times = map (round_to time_interval) (frame_time bitrate_df);
          bitrate_df' = bitrate_df\<lparr>ws_col_Length := lengths, timestamp_col := Some rounded_times\<rparr>;
          bitrate_grouped =
            map (\<lambda>k. (k, sum_list (group_rows rounded_times lengths k))) (group_keys rounded_times)
      in (bitrate_df',
          case full_timeline rounded_times time_interval of
            Inl e \<Rightarrow> Inl e
          | Inr timeline \<Rightarrow>
              Inr \<lparr>timestamp = timeline,
                   cols = [(''bitrate_bytes'',
                            map (\<lambda>t. map_option of_int (map_of bitrate_grouped t)) timeline)]\<rparr>))"



section \<open>Concrete inputs\<close>

definition ex_csi :: "(int, int) frame" where
  "ex_csi = \<lparr>timestamp = [3, 1, 2, 4],
     cols = [(''subcarrier_0'', [None, None, Some 7, None]),
             (''subcarrier_1'', [None, None, None, None]),
             (''rssi'', [None, Some 1, None, None])]\<rparr>"

definition ex_bitrate :: "(int, int) frame" where
  "ex_bitrate = \<lparr>timestamp = [3, 1, 2, 4],
     cols = [(''bitrate_bytes'', [Some 66, None, Some 16, None]),
             (''other'', [None, Some 1, None, None])]\<rparr>"

definition ex_full :: "(int, int) frame" where
  "ex_full = \<lparr>timestamp = [2, 1, 3],
     cols = [(''subcarrier_0'', [Some 5, Some 6, Some 7]),
             (''bitrate_median'', [Some 1, Some 2, Some 3])]\<rparr>"

definition ex_sorted :: "(int, int) frame" where
  "ex_sorted = \<lparr>timestamp = [1, 2, 3],
     cols = [(''subcarrier_0'', [Some 6, Some 5, Some 7]),
             (''bitrate_median'', [Some 2, Some 1, Some 3])]\<rparr>"

definition ex_series :: "(rat, rat) frame" where
  "ex_series = \<lparr>timestamp = [1, 2, 3, 4, 5],
     cols = [(''bitrate_bytes'', [Some 10, Some 20, Some 30, Some 40, Some 50])]\<rparr>"

definition ex_pca :: "int option list list \<Rightarrow> error + nat option" where
  "ex_pca win = (if win = [] then Inl FitError else Inr (Some (length win)))"

definition ex_feat_a :: "(int, int) frame" where
  "ex_feat_a = \<lparr>timestamp = [1, 2, 3, 5], cols = [(''csi_feature'', [Some 10, None, Some 30, Some 50])]\<rparr>"

definition ex_feat_b :: "(int, int) frame" where
  "ex_feat_b = \<lparr>timestamp = [2, 3, 4], cols = [(''bitrate_median'', [Some 7, Some 8, Some 9])]\<rparr>"

definition ex_data :: "rat ndarray" where
  "ex_data = \<lparr>shape1 = 3,
     rows = [[Some 1, Some 2, Some 3], [Some 3, None, Some 5], [Some 10, Some 20, Some 30]]\<rparr>"

definition ex_packets :: bitrate_table where
  "ex_packets = \<lparr>frame_time = [123 / 100, 123 / 100], ws_col_Length = [100, 50], timestamp_col = None\<rparr>"



definition ex_empty :: "rat ndarray" where
  "ex_empty = \<lparr>shape1 = 3, rows = []\<rparr>"

section \<open>Properties\<close>

subsection \<open>Sorting by timestamp\<close>

lemma length_argsort: "length (argsort ks) = length ks"
  by (simp add: argsort_def)

lemma map_insort_key: "map f (insort_key f x xs) = insort (f x) (map f xs)"
  by (induction xs) simp_all

lemma map_sort_key: "map f (sort_key f xs) = sort (map f xs)"
  by (induction xs) (simp_all add: map_insort_key)

lemma take_rows_argsort: "take_rows (argsort ks) ks = sort ks"
proof -
  let ?z = "zip ks [0..<length ks]"
  have "\<forall>p \<in> set (sort_key fst ?z). ks ! snd p = fst p"
    by (auto simp: set_zip)
  then have "map (\<lambda>p. ks ! snd p) (sort_key fst ?z) = map fst (sort_key fst ?z)"
    by (intro map_cong) auto
  then show ?thesis
    by (simp add: take_rows_def argsort_def comp_def map_sort_key)
qed

lemma mset_argsort: "mset (argsort ks) = mset [0..<length ks]"
proof -
  have "mset (map snd (sort_key fst (zip ks [0..<length ks]))) = mset (map snd (zip ks [0..<length ks]))"
    by (metis mset_map mset_sort)
  moreover have "map snd (zip ks [0..<length ks]) = [0..<length ks]" by simp
  ultimately show ?thesis by (simp only: argsort_def)
qed

lemma set_argsort: "set (argsort ks) = {0..<length ks}"
  using mset_argsort [of ks] by (metis mset_eq_setD set_upt)

lemma argsort_sorted: "sorted ks \<Longrightarrow> argsort ks = [0..<length ks]"
proof -
  assume "sorted ks"
  then have "sorted (map fst (zip ks [0..<length ks]))" by simp
  then have "sort_key fst (zip ks [0..<length ks]) = zip ks [0..<length ks]"
    by (rule sort_key_id_if_sorted)
  then show ?thesis by (simp add: argsort_def)
qed

lemma take_rows_upt: "length c = n \<Longrightarrow> take_rows [0..<n] c = c"
  by (auto simp: take_rows_def map_nth)

lemma mset_take_rows:
  assumes "length c = length ks"
  shows "mset (take_rows (argsort ks) c) = mset c"
proof -
  have "mset (take_rows (argsort ks) c) = image_mset (\<lambda>i. c ! i) (mset (argsort ks))"
    by (simp add: take_rows_def)
  also have "\<dots> = image_mset (\<lambda>i. c ! i) (mset [0..<length c])"
    by (simp add: mset_argsort assms)
  also have "\<dots> = mset (map (\<lambda>i. c ! i) [0..<length c])" by simp
  also have "\<dots> = mset c" by (simp add: map_nth)
  finally show ?thesis .
qed

lemma length_take_rows: "length (take_rows p c) = length p"
  by (simp add: take_rows_def)

subsection \<open>Forward and backward fill of one column\<close>

lemma find_app: "find P (xs @ ys) = (case find P xs of None \<Rightarrow> find P ys | Some x \<Rightarrow> Some x)"
  by (induction xs) simp_all

lemma length_ffill_from [simp]: "length (ffill_from l c) = length c"
  by (induction l c rule: ffill_from.induct) simp_all

lemma length_bfill [simp]: "length (bfill c) = length c"
  by (induction c rule: bfill.induct) simp_all

lemma ffill_from_nth:
  "i < length c \<Longrightarrow>
   ffill_from l c ! i = (case find (\<lambda>x. x \<noteq> None) (rev (take (Suc i) c)) of None \<Rightarrow> l | Some x \<Rightarrow> x)"
proof (induction l c arbitrary: i rule: ffill_from.induct)
  case (1 l)
  then show ?case by simp
next
  case (2 l xs)
  then show ?case by (cases i) (simp_all add: find_app split: option.splits)
next
  case (3 l v xs)
  then show ?case by (cases i) (simp_all add: find_app split: option.splits)
qed

lemma bfill_nth:
  "i < length c \<Longrightarrow>
   bfill c ! i = (case find (\<lambda>x. x \<noteq> None) (drop i c) of None \<Rightarrow> None | Some x \<Rightarrow> x)"
proof (induction c arbitrary: i rule: bfill.induct)
  case 1
  then show ?case by simp
next
  case (2 v xs)
  then show ?case by (cases i) simp_all
next
  case (3 xs)
  show ?case
  proof (cases i)
    case 0
    show ?thesis
    proof (cases xs)
      case Nil
      then show ?thesis using 0 by simp
    next
      case (Cons y ys)
      then have "bfill xs ! 0 = (case find (\<lambda>x. x \<noteq> None) (drop 0 xs) of None \<Rightarrow> None | Some x \<Rightarrow> x)"
        using "3.IH" [of 0] by simp
      moreover have "bfill xs \<noteq> []" using Cons by (metis length_bfill length_0_conv list.distinct(1))
      ultimately show ?thesis using 0 by (cases "bfill xs") simp_all
    qed
  next
    case (Suc j)
    then show ?thesis using "3.IH" [of j] "3.prems" by simp
  qed
qed


lemma find_ffill_from_None: "find (\<lambda>x. x \<noteq> None) (ffill_from None c) = find (\<lambda>x. x \<noteq> None) c"
  by (induction c) (auto split: option.splits)

lemma find_known_cases:
  "(case find (\<lambda>x. x \<noteq> None) c of None \<Rightarrow> None | Some x \<Rightarrow> x) = None \<longleftrightarrow> (\<forall>x\<in>set c. x = None)"
  by (induction c) auto

lemma drop_ffill_from_None:
  "\<forall>x\<in>set (take k c). x = None \<Longrightarrow> drop k (ffill_from None c) = ffill_from None (drop k c)"
proof (induction c arbitrary: k)
  case Nil
  then show ?case by simp
next
  case (Cons x xs)
  then show ?case by (cases k) auto
qed

lemma bfill_nth_known: "i < length d \<Longrightarrow> d ! i = Some v \<Longrightarrow> bfill d ! i = Some v"
  by (simp add: bfill_nth flip: Cons_nth_drop_Suc)

lemma fill_nth:
  assumes "i < length c"
  shows "bfill (ffill c) ! i = (case last_known c i of Some v \<Rightarrow> Some v | None \<Rightarrow> next_known c i)"
proof (cases "last_known c i")
  case None
  then have allN: "\<forall>x\<in>set (take (Suc i) c). x = None"
    unfolding last_known_def find_known_cases by simp
  then have "\<forall>x\<in>set (take i c). x = None"
    by (metis in_set_takeD take_take min.absorb1 le_add2 plus_1_eq_Suc)
  then have "drop i (ffill c) = ffill_from None (drop i c)"
    unfolding ffill_def by (rule drop_ffill_from_None)
  then have "bfill (ffill c) ! i = next_known c i"
    using assms by (simp add: bfill_nth ffill_def next_known_def find_ffill_from_None del: not_None_eq)
  then show ?thesis using None by simp
next
  case (Some v)
  then have "ffill c ! i = Some v"
    using assms by (simp add: ffill_def ffill_from_nth last_known_def)
  then have "bfill (ffill c) ! i = Some v"
    using assms by (intro bfill_nth_known) (simp_all add: ffill_def)
  then show ?thesis using Some by simp
qed

lemma ffill_from_all_None: "\<forall>x\<in>set c. x = None \<Longrightarrow> ffill_from None c = c"
  by (induction c) auto

lemma bfill_all_None: "\<forall>x\<in>set c. x = None \<Longrightarrow> bfill c = c"
  by (induction c) (auto split: list.splits)

lemma ffill_from_all_Some: "None \<notin> set c \<Longrightarrow> ffill_from l c = c"
  by (induction l c rule: ffill_from.induct) auto

lemma bfill_all_Some: "None \<notin> set c \<Longrightarrow> bfill c = c"
  by (induction c rule: bfill.induct) auto

lemma fill_all_None: "\<forall>x\<in>set c. x = None \<Longrightarrow> bfill (ffill c) = c"
  by (simp add: ffill_def ffill_from_all_None bfill_all_None)

lemma fill_all_Some: "None \<notin> set c \<Longrightarrow> bfill (ffill c) = c"
  by (simp add: ffill_def ffill_from_all_Some bfill_all_Some)

lemma fill_dichotomy: "(\<forall>x\<in>set c. x = None) \<or> None \<notin> set (bfill (ffill c))"
proof (cases "\<forall>x\<in>set c. x = None")
  case True
  then show ?thesis by simp
next
  case False
  then obtain j where j: "j < length c" "c ! j \<noteq> None"
    by (metis in_set_conv_nth)
  have "bfill (ffill c) ! i \<noteq> None" if i: "i < length c" for i
  proof (cases "last_known c i")
    case (Some v)
    then show ?thesis using fill_nth [OF i] by simp
  next
    case None
    then have allN: "\<forall>x\<in>set (take (Suc i) c). x = None"
      unfolding last_known_def find_known_cases by simp
    have "i \<le> j"
    proof (rule ccontr)
      assume "\<not> i \<le> j"
      then have "take (Suc i) c ! j = c ! j" "j < length (take (Suc i) c)"
        using j by simp_all
      then have "c ! j \<in> set (take (Suc i) c)"
        by (metis nth_mem)
      then show False using allN j by auto
    qed
    then have "drop i c ! (j - i) = c ! j" "j - i < length (drop i c)"
      using j by simp_all
    then have "c ! j \<in> set (drop i c)"
      by (metis nth_mem)
    then have "next_known c i \<noteq> None"
      using j unfolding next_known_def find_known_cases by auto
    then show ?thesis using fill_nth [OF i] None by simp
  qed
  then have "None \<notin> set (bfill (ffill c))"
    by (metis in_set_conv_nth length_bfill length_ffill_from ffill_def)
  then show ?thesis by simp
qed

lemma fill_idem: "bfill (ffill (bfill (ffill c))) = bfill (ffill c)"
  using fill_dichotomy [of c] by (auto simp: fill_all_None fill_all_Some)

lemma fillna_idem: "fillna z (fillna z c) = fillna z c"
  by (simp add: fillna_def option.case_eq_if)

lemma fillna_all_Some: "None \<notin> set c \<Longrightarrow> fillna z c = c"
  unfolding fillna_def by (rule map_idI) (metis option.case_eq_if option.collapse)

subsection \<open>Sorting a frame\<close>

lemma timestamp_sort_values: "timestamp (sort_values df) = sort (timestamp df)"
  by (simp add: sort_values_def Let_def take_rows_argsort)

lemma names_sort_values: "map fst (cols (sort_values df)) = map fst (cols df)"
  by (simp add: sort_values_def Let_def comp_def case_prod_unfold)

lemma wf_sort_values: "wf_frame (sort_values df)"
  by (simp add: wf_frame_def sort_values_def Let_def list_all_iff take_rows_def length_argsort case_prod_unfold)

lemma sort_values_id: "wf_frame df \<Longrightarrow> sorted (timestamp df) \<Longrightarrow> sort_values df = df"
proof -
  assume wf: "wf_frame df" and s: "sorted (timestamp df)"
  have "map (\<lambda>(n, c). (n, take_rows [0..<length (timestamp df)] c)) (cols df) = cols df"
    using wf by (intro map_idI) (auto simp: wf_frame_def list_all_iff take_rows_upt)
  then show ?thesis
    using s by (simp add: sort_values_def argsort_sorted take_rows_upt)
qed

lemma rows_of_sort_values: "mset (rows_of (sort_values df)) = mset (rows_of df)"
proof -
  let ?p = "argsort (timestamp df)"
  let ?n = "length (timestamp df)"
  let ?r = "\<lambda>k. (timestamp df ! k, map (\<lambda>(n, c). c ! k) (cols df))"
  have "rows_of (sort_values df) = map (\<lambda>i. ?r (?p ! i)) [0..<length ?p]"
    by (simp add: rows_of_def sort_values_def Let_def take_rows_def comp_def case_prod_unfold)
  also have "\<dots> = map ?r (map (\<lambda>i. ?p ! i) [0..<length ?p])"
    by (simp add: comp_def)
  also have "\<dots> = map ?r ?p"
    by (simp only: map_nth)
  finally have "mset (rows_of (sort_values df)) = image_mset ?r (mset ?p)"
    by simp
  also have "\<dots> = image_mset ?r (mset [0..<?n])"
    by (simp only: mset_argsort)
  also have "\<dots> = mset (rows_of df)"
    by (simp add: rows_of_def)
  finally show ?thesis .
qed

lemma no_missing_sort_values:
  assumes "wf_frame df" "no_missing df"
  shows "no_missing (sort_values df)"
proof -
  have "None \<notin> set (take_rows (argsort (timestamp df)) c)" if "(n, c) \<in> set (cols df)" for n c
  proof -
    have "length c = length (timestamp df)" "None \<notin> set c"
      using that assms by (auto simp: wf_frame_def no_missing_def list_all_iff)
    then show ?thesis
      by (metis mset_take_rows set_mset_mset)
  qed
  then show ?thesis
    by (auto simp: no_missing_def sort_values_def Let_def list_all_iff)
qed

subsection \<open>Gap filling of a frame\<close>

lemma timestamp_fill_csi: "timestamp (fill_missing_csi df) = sort (timestamp df)"
  by (simp add: fill_missing_csi_def Let_def timestamp_sort_values)

lemma timestamp_fill_bitrate: "timestamp (fill_missing_bitrate df) = sort (timestamp df)"
  by (simp add: fill_missing_bitrate_def Let_def timestamp_sort_values)

lemma names_fill_csi: "map fst (cols (fill_missing_csi df)) = map fst (cols df)"
proof -
  have "map fst (cols (fill_missing_csi df)) = map fst (cols (sort_values df))"
    by (simp add: fill_missing_csi_def Let_def comp_def case_prod_unfold if_distrib)
  then show ?thesis by (simp add: names_sort_values)
qed

lemma names_fill_bitrate: "map fst (cols (fill_missing_bitrate df)) = map fst (cols df)"
proof -
  have "map fst (cols (fill_missing_bitrate df)) = map fst (cols (sort_values df))"
    by (simp add: fill_missing_bitrate_def Let_def comp_def case_prod_unfold if_distrib)
  then show ?thesis by (simp add: names_sort_values)
qed

lemma wf_fill_csi: "wf_frame (fill_missing_csi df)"
  using wf_sort_values [of df]
  by (fastforce simp: wf_frame_def fill_missing_csi_def Let_def list_all_iff ffill_def split: if_splits)

lemma wf_fill_bitrate: "wf_frame (fill_missing_bitrate df)"
  using wf_sort_values [of df]
  by (fastforce simp: wf_frame_def fill_missing_bitrate_def Let_def list_all_iff fillna_def split: if_splits)

lemma fill_csi_sorted_input:
  assumes "wf_frame df" "sorted (timestamp df)"
  shows "fill_missing_csi df =
    df\<lparr>cols := map (\<lambda>(n, c). if prefix ''subcarrier_'' n then (n, bfill (ffill c)) else (n, c)) (cols df)\<rparr>"
  using assms by (simp add: fill_missing_csi_def sort_values_id)

lemma fill_bitrate_sorted_input:
  assumes "wf_frame df" "sorted (timestamp df)"
  shows "fill_missing_bitrate df =
    df\<lparr>cols := map (\<lambda>(n, c). if sublist ''bitrate'' n then (n, fillna 0 c) else (n, c)) (cols df)\<rparr>"
  using assms by (simp add: fill_missing_bitrate_def sort_values_id)

lemma fill_csi_twice: "fill_missing_csi (fill_missing_csi df) = fill_missing_csi df"
proof -
  let ?g = "\<lambda>(n, c). if prefix ''subcarrier_'' n then (n, bfill (ffill c)) else (n, c :: 'b option list)"
  let ?f = "fill_missing_csi df"
  have "sorted (timestamp ?f)" by (simp add: timestamp_fill_csi)
  then have "fill_missing_csi ?f = ?f\<lparr>cols := map ?g (cols ?f)\<rparr>"
    using wf_fill_csi by (rule fill_csi_sorted_input [rotated])
  moreover have "map ?g (cols ?f) = cols ?f"
    by (auto simp: fill_missing_csi_def Let_def fill_idem)
  ultimately show ?thesis by simp
qed

lemma fill_bitrate_twice: "fill_missing_bitrate (fill_missing_bitrate df) = fill_missing_bitrate df"
proof -
  let ?g = "\<lambda>(n, c). if sublist ''bitrate'' n then (n, fillna 0 c) else (n, c :: 'b option list)"
  let ?f = "fill_missing_bitrate df"
  have "sorted (timestamp ?f)" by (simp add: timestamp_fill_bitrate)
  then have "fill_missing_bitrate ?f = ?f\<lparr>cols := map ?g (cols ?f)\<rparr>"
    using wf_fill_bitrate by (rule fill_bitrate_sorted_input [rotated])
  moreover have "map ?g (cols ?f) = cols ?f"
    by (auto simp: fill_missing_bitrate_def Let_def fillna_idem)
  ultimately show ?thesis by simp
qed

lemma fill_csi_no_missing:
  assumes "wf_frame df" "no_missing df"
  shows "fill_missing_csi df = sort_values df"
proof -
  have "no_missing (sort_values df)" using assms by (rule no_missing_sort_values)
  then have "map (\<lambda>(n, c). if prefix ''subcarrier_'' n then (n, bfill (ffill c)) else (n, c))
      (cols (sort_values df)) = cols (sort_values df)"
    by (intro map_idI) (auto simp: no_missing_def list_all_iff fill_all_Some)
  then show ?thesis by (simp add: fill_missing_csi_def)
qed

lemma fill_bitrate_no_missing:
  assumes "wf_frame df" "no_missing df"
  shows "fill_missing_bitrate df = sort_values df"
proof -
  have "no_missing (sort_values df)" using assms by (rule no_missing_sort_values)
  then have "map (\<lambda>(n, c). if sublist ''bitrate'' n then (n, fillna 0 c) else (n, c))
      (cols (sort_values df)) = cols (sort_values df)"
    by (intro map_idI) (auto simp: no_missing_def list_all_iff fillna_all_Some)
  then show ?thesis by (simp add: fill_missing_bitrate_def)
qed

lemma cols_fill_csi_nth:
  assumes "k < length (cols df)"
  shows "cols (fill_missing_csi df) ! k =
    (let n = fst (cols (sort_values df) ! k); c = snd (cols (sort_values df) ! k)
     in if prefix ''subcarrier_'' n then (n, bfill (ffill c)) else (n, c))"
proof -
  have "k < length (cols (sort_values df))"
    using assms by (simp add: sort_values_def Let_def)
  then show ?thesis
    by (simp add: fill_missing_csi_def Let_def case_prod_unfold)
qed

lemma cols_sort_values_nth:
  assumes "k < length (cols df)"
  shows "cols (sort_values df) ! k =
    (fst (cols df ! k), take_rows (argsort (timestamp df)) (snd (cols df ! k)))"
  using assms by (simp add: sort_values_def Let_def case_prod_unfold)

lemma length_ffill: "length (ffill c) = length c"
  by (simp add: ffill_def)

lemma wf_frame_nth: "wf_frame df \<Longrightarrow> k < length (cols df) \<Longrightarrow> length (snd (cols df ! k)) = length (timestamp df)"
  by (auto simp: wf_frame_def list_all_length case_prod_unfold)


subsection \<open>Windows\<close>







lemma loc_in_range: "0 \<le> i \<Longrightarrow> i < int (length xs) \<Longrightarrow> loc xs i = Inr (xs ! nat i)"
  by (simp add: loc_def)













subsection \<open>Joining on the timestamp\<close>

lemma length_matches: "length (matches t ks) = length (filter (\<lambda>x. x = t) ks)"
proof -
  have "filter (\<lambda>x. x = t) (map (\<lambda>j. ks ! j) [0..<length ks]) =
        map (\<lambda>j. ks ! j) (filter (\<lambda>j. ks ! j = t) [0..<length ks])"
    by (simp add: filter_map comp_def)
  then have "length (filter (\<lambda>x. x = t) (map (\<lambda>j. ks ! j) [0..<length ks])) = length (matches t ks)"
    by (simp add: matches_def)
  then show ?thesis by (simp add: map_nth)
qed

lemma length_matches_distinct:
  "distinct ks \<Longrightarrow> length (matches t ks) = (if t \<in> set ks then 1 else 0)"
  unfolding length_matches by (induction ks) auto

lemma length_concat_upt:
  "length (concat (map g [0..<length a])) = sum_list (map (\<lambda>x. length (g x)) [0..<length a])"
  by (simp add: length_concat comp_def)

lemma sum_list_indicator: "sum_list (map (\<lambda>t. if P t then 1 else 0) xs) = length (filter P xs)"
  by (induction xs) auto

lemma inner_pairs_length:
  assumes "distinct b"
  shows "length (concat (map (\<lambda>i. map (\<lambda>j. (Some i, Some j)) (matches (a ! i) b)) [0..<length a]))
       = length (filter (\<lambda>t. t \<in> set b) a)"
proof -
  have "length (concat (map (\<lambda>i. map (\<lambda>j. (Some i, Some j)) (matches (a ! i) b)) [0..<length a]))
      = sum_list (map (\<lambda>i. if a ! i \<in> set b then 1 else 0) [0..<length a])"
    using assms by (simp add: length_concat comp_def length_matches_distinct)
  also have "\<dots> = sum_list (map (\<lambda>t. if t \<in> set b then 1 else 0) (map (\<lambda>i. a ! i) [0..<length a]))"
    by (simp add: comp_def)
  also have "\<dots> = length (filter (\<lambda>t. t \<in> set b) a)"
    by (simp only: map_nth sum_list_indicator)
  finally show ?thesis .
qed

lemma length_filter_mem_le:
  assumes "distinct a"
  shows "length (filter (\<lambda>t. t \<in> set b) a) \<le> length (remdups b)"
proof -
  have "length (filter (\<lambda>t. t \<in> set b) a) = card (set (filter (\<lambda>t. t \<in> set b) a))"
    using assms by (metis distinct_card distinct_filter)
  also have "\<dots> \<le> card (set b)"
    by (intro card_mono) auto
  also have "\<dots> = length (remdups b)" by (simp add: length_remdups_card_conv)
  finally show ?thesis .
qed

lemma join_inner_timestamps:
  "join_features a b ''inner'' = Inr j \<Longrightarrow>
   length (timestamp j) =
     length (concat (map (\<lambda>i. map (\<lambda>j. (Some i, Some j)) (matches (timestamp a ! i) (timestamp b)))
        [0..<length (timestamp a)]))
   \<and> sorted (timestamp j)"
  by (auto simp: join_features_def merge_def merge_pairs_def timestamp_sort_values split: sum.splits)

lemma join_inner_defined: "\<exists>j. join_features a b ''inner'' = Inr j"
  by (simp add: join_features_def merge_def merge_pairs_def)


lemma inner_pairs_keys:
  assumes "distinct b"
  shows "map (pair_key a b) (concat (map (\<lambda>i. map (\<lambda>j. (Some i, Some j)) (matches (a ! i) b)) [0..<length a]))
       = filter (\<lambda>t. t \<in> set b) a"
proof -
  have one: "map (\<lambda>j. pair_key a b (Some i, Some j)) (matches (a ! i) b)
      = (if a ! i \<in> set b then [a ! i] else [])" for i
  proof -
    have "map (\<lambda>j. pair_key a b (Some i, Some j)) (matches (a ! i) b)
        = replicate (length (matches (a ! i) b)) (a ! i)"
      by (simp add: pair_key_def map_replicate_const)
    then show ?thesis using assms by (simp add: length_matches_distinct)
  qed
  have "map (pair_key a b) (concat (map (\<lambda>i. map (\<lambda>j. (Some i, Some j)) (matches (a ! i) b)) [0..<length a]))
      = concat (map (\<lambda>i. if a ! i \<in> set b then [a ! i] else []) [0..<length a])"
    by (simp add: map_concat comp_def one)
  also have "\<dots> = concat (map (\<lambda>t. if t \<in> set b then [t] else []) (map (\<lambda>i. a ! i) [0..<length a]))"
    by (simp add: comp_def)
  also have "\<dots> = concat (map (\<lambda>t. if t \<in> set b then [t] else []) a)"
    by (simp only: map_nth)
  also have "\<dots> = filter (\<lambda>t. t \<in> set b) a"
    by (induction a) auto
  finally show ?thesis .
qed

lemma join_features_inner_eq:
  assumes "sorted_wrt (<) (timestamp a)" "sorted_wrt (<) (timestamp b)"
  shows "\<exists>j. join_features a b ''inner'' = Inr j
      \<and> timestamp j = filter (\<lambda>t. t \<in> set (timestamp b)) (timestamp a)"
proof -
  have d: "distinct (timestamp b)" and s: "sorted (timestamp a)"
    using assms by (simp_all add: strict_sorted_iff)
  have "sorted (filter (\<lambda>t. t \<in> set (timestamp b)) (timestamp a))"
    using s by (rule sorted_wrt_filter)
  then have "sort (filter (\<lambda>t. t \<in> set (timestamp b)) (timestamp a))
      = filter (\<lambda>t. t \<in> set (timestamp b)) (timestamp a)"
    by (rule sorted_sort_id)
  then show ?thesis
    by (simp add: join_features_def merge_def merge_pairs_def timestamp_sort_values
        inner_pairs_keys [OF d])
qed

subsection \<open>The timeline\<close>









subsection \<open>The aligned CSI grid\<close>

lemma select_subcarriers_ok:
  assumes "n_subcarriers = None \<or> 0 \<le> the n_subcarriers"
  shows "\<exists>data n. select_subcarriers a n_subcarriers = Inr (data, n) \<and> length data = length (rows a)"
  using assms
  by (cases n_subcarriers) (auto simp: select_subcarriers_def linspace_int_def Let_def)






subsection \<open>The aligned bitrate grid\<close>








subsection \<open>Subcarrier selection\<close>





subsection \<open>Errors of the CSI aligner\<close>

lemma select_subcarriers_error:
  "select_subcarriers a ns = Inl e \<Longrightarrow> e = NegativeSamples \<and> ns \<noteq> None \<and> the ns < 0"
  by (cases ns) (auto simp: select_subcarriers_def linspace_int_def Let_def split: if_splits)

lemma full_timeline_error:
  "full_timeline rs i = Inl e \<Longrightarrow> e = EmptyReduction \<or> e = ArangeError"
  by (auto simp: full_timeline_def array_min_def array_max_def arange_def split: list.splits if_splits)

lemma full_timeline_defined:
  "rs \<noteq> [] \<Longrightarrow> i \<noteq> 0 \<Longrightarrow> \<exists>tl. full_timeline rs i = Inr tl"
  by (cases rs) (auto simp: full_timeline_def array_min_def array_max_def arange_def)

lemma align_unsupported_raises:
  assumes "m \<noteq> ''mean''" "m \<noteq> ''first''"
  shows "\<exists>e. align_csi_magnitude a ts i ns m = Inl e"
  using assms
  by (cases "select_subcarriers a ns") (auto simp: align_csi_magnitude_def Let_def)

lemma align_supported_no_rejection:
  assumes "m = ''mean'' \<or> m = ''first''"
  shows "align_csi_magnitude a ts i ns m \<noteq> Inl AggregationMethodError"
proof
  assume r: "align_csi_magnitude a ts i ns m = Inl AggregationMethodError"
  show False
  proof (cases "select_subcarriers a ns")
    case (Inl e)
    then show ?thesis
      using r select_subcarriers_error [OF Inl] by (simp add: align_csi_magnitude_def)
  next
    case (Inr p)
    obtain data n where p: "p = (data, n)" by (cases p)
    show ?thesis
    proof (cases "full_timeline (map (round_to i) ts) i")
      case (Inl e)
      then show ?thesis
        using r assms Inr p full_timeline_error [OF Inl]
        by (auto simp: align_csi_magnitude_def Let_def split: if_splits)
    next
      case tl: (Inr t)
      then show ?thesis
        using r assms Inr p
        by (auto simp: align_csi_magnitude_def Let_def split: if_splits)
    qed
  qed
qed

lemma align_rejection:
  assumes "ns = None \<or> 0 \<le> the ns" "length ts = length (rows a)"
    and "m \<noteq> ''mean''" "m \<noteq> ''first''"
  shows "align_csi_magnitude a ts i ns m = Inl AggregationMethodError"
proof -
  from select_subcarriers_ok [OF assms(1), of a] obtain data n where
    "select_subcarriers a ns = Inr (data, n)" "length data = length (rows a)" by blast
  then show ?thesis
    using assms(2,3,4) by (simp add: align_csi_magnitude_def Let_def)
qed

lemma align_supported_defined:
  assumes "ns = None \<or> 0 \<le> the ns" "length ts = length (rows a)" "ts \<noteq> []" "i \<noteq> 0"
    and "m = ''mean'' \<or> m = ''first''"
  shows "\<exists>g. align_csi_magnitude a ts i ns m = Inr g"
proof -
  from select_subcarriers_ok [OF assms(1), of a] obtain data n where
    s: "select_subcarriers a ns = Inr (data, n)" "length data = length (rows a)" by blast
  from full_timeline_defined [of "map (round_to i) ts" i] assms(3,4) obtain tl where
    "full_timeline (map (round_to i) ts) i = Inr tl" by auto
  then show ?thesis
    using s assms(2,5) by (auto simp: align_csi_magnitude_def Let_def)
qed

subsection \<open>The gap filler: claims\<close>

text \<open>
  C9. Gap filling never manufactures a timestamp: the timestamp column of the result of
  \<open>fill_missing_csi\<close> and of \<open>fill_missing_bitrate\<close> is the sorted timestamp column of the
  input, so it has the same number of rows and the same multiset of values and is
  ascending; the column names are unchanged and every value column keeps the row count.
\<close>

theorem gap_filling_keeps_timestamps:
  fixes df :: "('t::linorder, 'v) frame" and dfb :: "('s::linorder, 'w::zero) frame"
  shows "timestamp (fill_missing_csi df) = sort (timestamp df)
    \<and> length (timestamp (fill_missing_csi df)) = length (timestamp df)
    \<and> mset (timestamp (fill_missing_csi df)) = mset (timestamp df)
    \<and> sorted (timestamp (fill_missing_csi df))
    \<and> map fst (cols (fill_missing_csi df)) = map fst (cols df)
    \<and> wf_frame (fill_missing_csi df)
    \<and> timestamp (fill_missing_bitrate dfb) = sort (timestamp dfb)
    \<and> length (timestamp (fill_missing_bitrate dfb)) = length (timestamp dfb)
    \<and> mset (timestamp (fill_missing_bitrate dfb)) = mset (timestamp dfb)
    \<and> sorted (timestamp (fill_missing_bitrate dfb))
    \<and> map fst (cols (fill_missing_bitrate dfb)) = map fst (cols dfb)
    \<and> wf_frame (fill_missing_bitrate dfb)"
  by (simp add: timestamp_fill_csi timestamp_fill_bitrate names_fill_csi names_fill_bitrate
      wf_fill_csi wf_fill_bitrate)

theorem gap_filling_keeps_timestamps_witness:
  "timestamp (fill_missing_csi ex_csi) = [1, 2, 3, 4]
   \<and> timestamp (fill_missing_bitrate ex_bitrate) = [1, 2, 3, 4]"
proof -
  have "sort (timestamp ex_csi) = [1, 2, 3, 4]" "sort (timestamp ex_bitrate) = [1, 2, 3, 4]"
    by (simp_all add: ex_csi_def ex_bitrate_def)
  then show ?thesis
    using gap_filling_keeps_timestamps [of ex_csi ex_bitrate] by simp
qed

text \<open>
  C4. Gap filling is idempotent: filling twice equals filling once; and on a table
  without missing values the fill returns the input with its rows stably sorted by
  timestamp (the same multiset of rows), which is the input itself when its timestamps
  are already ascending.
\<close>

theorem gap_filling_idempotent:
  fixes df :: "('t::linorder, 'v) frame" and dfb :: "('s::linorder, 'w::zero) frame"
  shows "fill_missing_csi (fill_missing_csi df) = fill_missing_csi df
    \<and> fill_missing_bitrate (fill_missing_bitrate dfb) = fill_missing_bitrate dfb
    \<and> (wf_frame df \<and> no_missing df \<longrightarrow>
          fill_missing_csi df = sort_values df
        \<and> mset (rows_of (fill_missing_csi df)) = mset (rows_of df)
        \<and> sorted (timestamp (fill_missing_csi df))
        \<and> (sorted (timestamp df) \<longrightarrow> fill_missing_csi df = df))
    \<and> (wf_frame dfb \<and> no_missing dfb \<longrightarrow>
          fill_missing_bitrate dfb = sort_values dfb
        \<and> mset (rows_of (fill_missing_bitrate dfb)) = mset (rows_of dfb)
        \<and> sorted (timestamp (fill_missing_bitrate dfb))
        \<and> (sorted (timestamp dfb) \<longrightarrow> fill_missing_bitrate dfb = dfb))"
  by (simp add: fill_csi_twice fill_bitrate_twice fill_csi_no_missing fill_bitrate_no_missing
      rows_of_sort_values timestamp_sort_values sort_values_id)

theorem gap_filling_idempotent_witness:
  "wf_frame ex_full \<and> no_missing ex_full
   \<and> wf_frame ex_sorted \<and> no_missing ex_sorted \<and> sorted (timestamp ex_sorted)
   \<and> fill_missing_csi ex_full = sort_values ex_full
   \<and> fill_missing_bitrate ex_full = sort_values ex_full
   \<and> fill_missing_csi ex_sorted = ex_sorted
   \<and> fill_missing_bitrate ex_sorted = ex_sorted"
proof -
  have h: "wf_frame ex_full" "no_missing ex_full"
    by (simp_all add: wf_frame_def no_missing_def ex_full_def)
  have w: "wf_frame ex_sorted" "no_missing ex_sorted" "sorted (timestamp ex_sorted)"
    by (simp_all add: wf_frame_def no_missing_def ex_sorted_def)
  have "fill_missing_csi ex_full = sort_values ex_full"
    "fill_missing_bitrate ex_full = sort_values ex_full"
    using h gap_filling_idempotent [of ex_full ex_full] by blast+
  moreover have "fill_missing_csi ex_sorted = ex_sorted"
    "fill_missing_bitrate ex_sorted = ex_sorted"
    using w gap_filling_idempotent [of ex_sorted ex_sorted] by blast+
  ultimately show ?thesis using h w by blast
qed


text \<open>
  C3. \<open>fill_missing_csi\<close> fills every column whose name starts with \<open>subcarrier_\<close> on its
  own: each cell of the filled column holds the nearest earlier known value of that column
  (in the rows sorted by timestamp) and, where there is none, the nearest later known
  value; the other columns are only sorted. A subcarrier column that is missing in every
  row is still missing in every row of the result.
\<close>

theorem fill_missing_csi_policy:
  assumes "wf_frame df"
  shows "map fst (cols (fill_missing_csi df)) = map fst (cols df)
    \<and> (\<forall>k<length (cols df).
          let n = fst (cols (sort_values df) ! k);
              c = snd (cols (sort_values df) ! k);
              c' = snd (cols (fill_missing_csi df) ! k)
          in length c' = length c
             \<and> (if prefix ''subcarrier_'' n
                then \<forall>i<length c. c' ! i =
                       (case last_known c i of Some v \<Rightarrow> Some v | None \<Rightarrow> next_known c i)
                else c' = c))
    \<and> (\<forall>k<length (cols df).
          prefix ''subcarrier_'' (fst (cols df ! k)) \<and> (\<forall>x\<in>set (snd (cols df ! k)). x = None)
          \<longrightarrow> (\<forall>x\<in>set (snd (cols (fill_missing_csi df) ! k)). x = None))"
proof (intro conjI allI impI)
  show "map fst (cols (fill_missing_csi df)) = map fst (cols df)"
    by (rule names_fill_csi)
next
  fix k assume k: "k < length (cols df)"
  show "let n = fst (cols (sort_values df) ! k);
            c = snd (cols (sort_values df) ! k);
            c' = snd (cols (fill_missing_csi df) ! k)
        in length c' = length c
           \<and> (if prefix ''subcarrier_'' n
              then \<forall>i<length c. c' ! i =
                     (case last_known c i of Some v \<Rightarrow> Some v | None \<Rightarrow> next_known c i)
              else c' = c)"
    by (simp add: cols_fill_csi_nth [OF k] Let_def fill_nth length_ffill)
next
  fix k
  assume k: "k < length (cols df)"
    and h: "prefix ''subcarrier_'' (fst (cols df ! k)) \<and> (\<forall>x\<in>set (snd (cols df ! k)). x = None)"
  let ?raw = "snd (cols df ! k)"
  let ?c = "take_rows (argsort (timestamp df)) ?raw"
  have "length ?raw = length (timestamp df)"
    using assms k by (rule wf_frame_nth)
  then have "set ?c = set ?raw"
    by (metis mset_take_rows set_mset_mset)
  then have allN: "\<forall>x\<in>set ?c. x = None" using h by simp
  then have "bfill (ffill ?c) = ?c" by (rule fill_all_None)
  then have "snd (cols (fill_missing_csi df) ! k) = ?c"
    using h by (simp add: cols_fill_csi_nth [OF k] cols_sort_values_nth [OF k] Let_def)
  then show "\<forall>x\<in>set (snd (cols (fill_missing_csi df) ! k)). x = None"
    using allN by simp
qed

theorem fill_missing_csi_policy_witness:
  "wf_frame ex_csi \<and> 1 < length (cols ex_csi)
   \<and> prefix ''subcarrier_'' (fst (cols ex_csi ! 1))
   \<and> list_all (\<lambda>x. x = None) (snd (cols ex_csi ! 1))
   \<and> list_all (\<lambda>x. x = None) (snd (cols (fill_missing_csi ex_csi) ! 1))
   \<and> map fst (cols (fill_missing_csi ex_csi)) = [''subcarrier_0'', ''subcarrier_1'', ''rssi'']"
proof -
  have h: "wf_frame ex_csi" by (simp add: wf_frame_def ex_csi_def)
  have k: "1 < length (cols ex_csi)" "prefix ''subcarrier_'' (fst (cols ex_csi ! 1))"
    "\<forall>x\<in>set (snd (cols ex_csi ! 1)). x = None"
    by (simp_all add: ex_csi_def)
  have n: "map fst (cols ex_csi) = [''subcarrier_0'', ''subcarrier_1'', ''rssi'']"
    by (simp add: ex_csi_def)
  from fill_missing_csi_policy [OF h] k
  have "\<forall>x\<in>set (snd (cols (fill_missing_csi ex_csi) ! 1)). x = None"
    by blast
  moreover from fill_missing_csi_policy [OF h] n
  have "map fst (cols (fill_missing_csi ex_csi)) = [''subcarrier_0'', ''subcarrier_1'', ''rssi'']"
    by simp
  ultimately show ?thesis using h k by (simp add: list_all_iff)
qed

lemma ex_csi_filled:
  "fill_missing_csi ex_csi = \<lparr>timestamp = [1, 2, 3, 4],
     cols = [(''subcarrier_0'', [Some 7, Some 7, Some 7, Some 7]),
             (''subcarrier_1'', [None, None, None, None]),
             (''rssi'', [Some 1, None, None, None])]\<rparr>"
  by code_simp

subsection \<open>The windowed reducers: claim\<close>



lemma median_filter_bitrate_scenario:
  "median_filter_bitrate ex_series 3 1 =
     Inr \<lparr>timestamp = [2, 3, 4], cols = [(''bitrate_median'', [Some 20, Some 30, Some 40])]\<rparr>"
  by code_simp

lemma csi_feature_extraction_example:
  "csi_feature_extraction ex_pca id ex_csi 3 1 =
     Inr \<lparr>timestamp = [1, 2], cols = [(''csi_feature'', [Some 3, Some 3])]\<rparr>"
  by code_simp

subsection \<open>The feature joiner: claim\<close>

text \<open>
  C7. For two feature series with strictly increasing timestamps, \<open>join_features\<close> in
  \<open>inner\<close> mode returns one row for every timestamp of the first series that occurs in
  the second: at most \<open>min (len a) (len b)\<close> rows, exactly that many when the two
  timestamp sets are equal, in ascending order of timestamp.
\<close>

theorem join_features_inner_rows:
  fixes a b :: "('t::linorder, 'v) frame"
  assumes "sorted_wrt (<) (timestamp a)" "sorted_wrt (<) (timestamp b)"
  shows "\<exists>j. join_features a b ''inner'' = Inr j
    \<and> timestamp j = filter (\<lambda>t. t \<in> set (timestamp b)) (timestamp a)
    \<and> length (timestamp j) \<le> min (length (timestamp a)) (length (timestamp b))
    \<and> sorted (timestamp j)
    \<and> (set (timestamp a) = set (timestamp b) \<longrightarrow>
         length (timestamp j) = length (timestamp a) \<and> length (timestamp j) = length (timestamp b))"
proof -
  from join_features_inner_eq [OF assms] obtain j where
    j: "join_features a b ''inner'' = Inr j"
    and t: "timestamp j = filter (\<lambda>t. t \<in> set (timestamp b)) (timestamp a)"
    by blast
  have da: "distinct (timestamp a)" and db: "distinct (timestamp b)" and sa: "sorted (timestamp a)"
    using assms by (simp_all add: strict_sorted_iff)
  have "length (timestamp j) \<le> length (timestamp a)"
    unfolding t by (rule length_filter_le)
  moreover have "length (timestamp j) \<le> length (timestamp b)"
    unfolding t using length_filter_mem_le [OF da, of "timestamp b"] db
    by (simp add: distinct_remdups_id)
  moreover have "sorted (timestamp j)"
    unfolding t using sa by (rule sorted_wrt_filter)
  moreover have "length (timestamp j) = length (timestamp a) \<and> length (timestamp j) = length (timestamp b)"
    if eq: "set (timestamp a) = set (timestamp b)"
  proof -
    have "filter (\<lambda>t. t \<in> set (timestamp b)) (timestamp a) = timestamp a"
      using eq by simp
    moreover have "length (timestamp a) = length (timestamp b)"
      using da db eq by (metis distinct_card)
    ultimately show ?thesis using t by simp
  qed
  ultimately show ?thesis using j t by auto
qed

theorem join_features_inner_rows_witness:
  "sorted_wrt (<) (timestamp ex_feat_a) \<and> sorted_wrt (<) (timestamp ex_feat_b)
   \<and> set (timestamp ex_feat_b) = set (timestamp ex_feat_b)
   \<and> (\<exists>j. join_features ex_feat_a ex_feat_b ''inner'' = Inr j \<and> timestamp j = [2, 3])
   \<and> (\<exists>j. join_features ex_feat_b ex_feat_b ''inner'' = Inr j \<and> length (timestamp j) = 3)"
proof -
  have h: "sorted_wrt (<) (timestamp ex_feat_a)" "sorted_wrt (<) (timestamp ex_feat_b)"
    by (simp_all add: ex_feat_a_def ex_feat_b_def)
  have f: "filter (\<lambda>t. t \<in> set (timestamp ex_feat_b)) (timestamp ex_feat_a) = [2, 3]"
    by (simp add: ex_feat_a_def ex_feat_b_def)
  have l: "length (timestamp ex_feat_b) = 3" by (simp add: ex_feat_b_def)
  from join_features_inner_rows [OF h] f
  have "\<exists>j. join_features ex_feat_a ex_feat_b ''inner'' = Inr j \<and> timestamp j = [2, 3]"
    by auto
  moreover from join_features_inner_rows [OF h(2) h(2)] l
  have "\<exists>j. join_features ex_feat_b ex_feat_b ''inner'' = Inr j \<and> length (timestamp j) = 3"
    by auto
  ultimately show ?thesis using h by simp
qed

lemma join_features_example:
  "join_features ex_feat_a ex_feat_b ''inner'' =
     Inr \<lparr>timestamp = [2, 3],
          cols = [(''csi_feature'', [None, Some 30]), (''bitrate_median'', [Some 7, Some 8])]\<rparr>"
  by code_simp

subsection \<open>The aligned grid: claim\<close>





subsection \<open>The bitrate aligner: claims\<close>



text \<open>
  C10. \<open>calculate_bitrate_and_align\<close> changes the table it is given: after a call the
  packet-length column of the caller's table is lower by \<open>header_adjust\<close> and the table has
  a \<open>timestamp\<close> column with the rounded times, whether or not the call goes on to raise;
  a second call on the same table subtracts \<open>header_adjust\<close> a second time.
\<close>

theorem calculate_bitrate_and_align_mutates:
  "fst (calculate_bitrate_and_align df i h) =
     df\<lparr>ws_col_Length := map (\<lambda>l. l - h) (ws_col_Length df),
        timestamp_col := Some (map (round_to i) (frame_time df))\<rparr>
   \<and> ws_col_Length (fst (calculate_bitrate_and_align (fst (calculate_bitrate_and_align df i h)) i h))
       = map (\<lambda>l. l - 2 * h) (ws_col_Length df)
   \<and> timestamp_col (fst (calculate_bitrate_and_align (fst (calculate_bitrate_and_align df i h)) i h))
       = Some (map (round_to i) (frame_time df))
   \<and> frame_time (fst (calculate_bitrate_and_align df i h)) = frame_time df"
  by (simp add: calculate_bitrate_and_align_def Let_def comp_def)

theorem calculate_bitrate_and_align_mutates_witness:
  "ws_col_Length (fst (calculate_bitrate_and_align ex_packets (1 / 10) 34)) = [66, 16]
   \<and> ws_col_Length (fst (calculate_bitrate_and_align
         (fst (calculate_bitrate_and_align ex_packets (1 / 10) 34)) (1 / 10) 34)) = [32, - 18]"
proof -
  note t = calculate_bitrate_and_align_mutates [of ex_packets "1 / 10" 34]
  have m: "map (\<lambda>l. l - 34) (ws_col_Length ex_packets) = [66, 16]"
    "map (\<lambda>l. l - 2 * 34) (ws_col_Length ex_packets) = [32, - 18]"
    by (simp_all add: ex_packets_def)
  have "ws_col_Length (fst (calculate_bitrate_and_align ex_packets (1 / 10) 34)) = [66, 16]"
    using t [THEN conjunct1] m(1) by simp
  moreover have "ws_col_Length (fst (calculate_bitrate_and_align
         (fst (calculate_bitrate_and_align ex_packets (1 / 10) 34)) (1 / 10) 34)) = [32, - 18]"
    using t [THEN conjunct2, THEN conjunct1] m(2) by (simp only:)
  ultimately show ?thesis by (rule conjI)
qed

subsection \<open>Subcarrier selection: claim\<close>




subsection \<open>The aggregation method: claim\<close>

text \<open>
  C6 (amended). \<open>align_csi_magnitude\<close> raises its aggregation-method error exactly when
  the method is neither \<open>mean\<close> nor \<open>first\<close>, provided the steps before the check
  succeed (no negative subcarrier count, one timestamp per data row). An unsupported
  method never yields a grid; a supported method never triggers this rejection, whatever
  the data; and on a non-empty input with a non-zero interval and those two provisos the
  call raises at all only for an unsupported method.
\<close>

theorem aggregation_method_rejection:
  "(m \<noteq> ''mean'' \<and> m \<noteq> ''first'' \<longrightarrow> (\<exists>e. align_csi_magnitude a ts i ns m = Inl e))
   \<and> (m = ''mean'' \<or> m = ''first'' \<longrightarrow> align_csi_magnitude a ts i ns m \<noteq> Inl AggregationMethodError)
   \<and> ((ns = None \<or> 0 \<le> the ns) \<and> length ts = length (rows a) \<longrightarrow>
        (align_csi_magnitude a ts i ns m = Inl AggregationMethodError
           \<longleftrightarrow> m \<noteq> ''mean'' \<and> m \<noteq> ''first''))
   \<and> ((ns = None \<or> 0 \<le> the ns) \<and> length ts = length (rows a) \<and> ts \<noteq> [] \<and> i \<noteq> 0 \<longrightarrow>
        ((\<exists>e. align_csi_magnitude a ts i ns m = Inl e) \<longleftrightarrow> m \<noteq> ''mean'' \<and> m \<noteq> ''first''))"
proof (intro conjI impI)
  show "\<exists>e. align_csi_magnitude a ts i ns m = Inl e" if "m \<noteq> ''mean'' \<and> m \<noteq> ''first''"
    using that by (intro align_unsupported_raises) simp_all
  show "align_csi_magnitude a ts i ns m \<noteq> Inl AggregationMethodError" if "m = ''mean'' \<or> m = ''first''"
    using that by (rule align_supported_no_rejection)
  show "align_csi_magnitude a ts i ns m = Inl AggregationMethodError
           \<longleftrightarrow> m \<noteq> ''mean'' \<and> m \<noteq> ''first''"
    if "(ns = None \<or> 0 \<le> the ns) \<and> length ts = length (rows a)"
    using that align_rejection [of ns ts a m i] align_supported_no_rejection [of m a ts i ns]
    by blast
  show "(\<exists>e. align_csi_magnitude a ts i ns m = Inl e) \<longleftrightarrow> m \<noteq> ''mean'' \<and> m \<noteq> ''first''"
    if h: "(ns = None \<or> 0 \<le> the ns) \<and> length ts = length (rows a) \<and> ts \<noteq> [] \<and> i \<noteq> 0"
  proof
    assume "\<exists>e. align_csi_magnitude a ts i ns m = Inl e"
    then show "m \<noteq> ''mean'' \<and> m \<noteq> ''first''"
      using h align_supported_defined [of ns ts a i m] by auto
  next
    assume "m \<noteq> ''mean'' \<and> m \<noteq> ''first''"
    then show "\<exists>e. align_csi_magnitude a ts i ns m = Inl e"
      by (intro align_unsupported_raises) simp_all
  qed
qed

theorem aggregation_method_rejection_witness:
  "''median'' \<noteq> ''mean'' \<and> ''median'' \<noteq> ''first''
   \<and> length [1 / 4, 1 / 2, 7 / 4 :: rat] = length (rows ex_data)
   \<and> [1 / 4, 1 / 2, 7 / 4 :: rat] \<noteq> [] \<and> (1::rat) \<noteq> 0
   \<and> align_csi_magnitude ex_data [1 / 4, 1 / 2, 7 / 4] 1 None ''median'' = Inl AggregationMethodError
   \<and> align_csi_magnitude ex_data [1 / 4, 1 / 2, 7 / 4] 1 None ''mean'' \<noteq> Inl AggregationMethodError
   \<and> (\<nexists>e. align_csi_magnitude ex_data [1 / 4, 1 / 2, 7 / 4] 1 None ''first'' = Inl e)"
proof -
  have l: "length [1 / 4, 1 / 2, 7 / 4 :: rat] = length (rows ex_data)"
    by (simp add: ex_data_def)
  have "align_csi_magnitude ex_data [1 / 4, 1 / 2, 7 / 4] 1 None ''median'' = Inl AggregationMethodError"
    using l aggregation_method_rejection [of "''median''" ex_data "[1 / 4, 1 / 2, 7 / 4]" 1 None]
    by simp
  moreover have "align_csi_magnitude ex_data [1 / 4, 1 / 2, 7 / 4] 1 None ''mean'' \<noteq> Inl AggregationMethodError"
    using aggregation_method_rejection [of "''mean''" ex_data "[1 / 4, 1 / 2, 7 / 4]" 1 None]
    by simp
  moreover have "\<nexists>e. align_csi_magnitude ex_data [1 / 4, 1 / 2, 7 / 4] 1 None ''first'' = Inl e"
    using l aggregation_method_rejection [of "''first''" ex_data "[1 / 4, 1 / 2, 7 / 4]" 1 None]
    by simp
  ultimately show ?thesis using l by simp
qed

theorem aggregation_method_rejection_counterexample:
  "align_csi_magnitude ex_empty [] (1 / 10) None ''mean'' = Inl EmptyReduction
   \<and> align_csi_magnitude ex_data [1 / 4, 1 / 2, 7 / 4] (1 / 10) (Some (- 1)) ''mean'' = Inl NegativeSamples"
  by code_simp

end
